theory Spec2Isabelle
  imports Main
begin

section \<open>Exceptions\<close>

text \<open>
  Every \<^verbatim>\<open>raise\<close> of \<^verbatim>\<open>src/zemen/converters.py\<close> raises Python's \<^verbatim>\<open>ValueError\<close>; the two
  kinds of failure the module tells apart differ in the message only. An exception is
  therefore modelled by its class and, for a \<^verbatim>\<open>ValueError\<close>, by its message:
  \<^item> \<open>Invalid_date_for_Gregorian_calendar\<close> is the text raised at line 34,
  \<^item> \<open>Invalid_Julian_Day_Number\<close> is the text raised at lines 49 and 67,
  \<^item> \<open>Datetime_message\<close> stands for any text that \<^verbatim>\<open>datetime.date\<close> itself puts into a
    \<^verbatim>\<open>ValueError\<close> (such as \<^verbatim>\<open>ordinal must be >= 1\<close> or \<^verbatim>\<open>year 10000 is out of range\<close>).
  \<^verbatim>\<open>OverflowError\<close> is what CPython's \<^verbatim>\<open>datetime.date\<close> raises for an argument that does
  not fit a C \<^verbatim>\<open>int\<close>; it is not a \<^verbatim>\<open>ValueError\<close>, so the handler at line 33 lets it pass.
\<close>

datatype message =
    Invalid_date_for_Gregorian_calendar
  | Invalid_Julian_Day_Number
  | Datetime_message

datatype error = ValueError message | OverflowError

text \<open>The two error kinds as the specification names them.\<close>

definition InvalidDateError :: error where
  "InvalidDateError = ValueError Invalid_date_for_Gregorian_calendar"

definition InvalidJdnError :: error where
  "InvalidJdnError = ValueError Invalid_Julian_Day_Number"




section \<open>The standard library's \<^verbatim>\<open>datetime.date\<close>\<close>

text \<open>
  The module builds on \<^verbatim>\<open>datetime.date\<close>, which is part of Python and not of the
  repository. Its model follows CPython: the day arithmetic of the reference implementation
  (\<^verbatim>\<open>_is_leap\<close>, \<^verbatim>\<open>_days_before_year\<close>, \<^verbatim>\<open>_days_in_month\<close>, \<^verbatim>\<open>_days_before_month\<close>,
  \<^verbatim>\<open>_ymd2ord\<close>, \<^verbatim>\<open>_ord2ymd\<close>, \<^verbatim>\<open>_check_date_fields\<close>), which the C accelerator mirrors
  line by line, and the accelerator's conversion of every argument to a C \<^verbatim>\<open>int\<close>.
  Python integers are unbounded, hence \<^typ>\<open>int\<close>; \<^verbatim>\<open>//\<close> and \<^verbatim>\<open>%\<close> round towards minus
  infinity, as \<open>div\<close> and \<open>mod\<close> on \<^typ>\<open>int\<close> do, and \<^verbatim>\<open>x >> 5\<close> is \<open>drop_bit 5 x\<close>.
  The \<^verbatim>\<open>assert\<close> statements of the library check its own invariants and are not
  branches of the model; the arguments are integers, as the annotations of the module say.
\<close>

record date =
  date_year :: int
  date_month :: int
  date_day :: int

definition MINYEAR :: int where
  "MINYEAR = 1"

definition MAXYEAR :: int where
  "MAXYEAR = 9999"

definition DAYS_IN_MONTH :: "int list" where
  "DAYS_IN_MONTH = [-1, 31, 28, 31, 30, 31, 30, 31, 31, 30, 31, 30, 31]"

definition DAYS_BEFORE_MONTH :: "int list" where
  "DAYS_BEFORE_MONTH = [-1, 0, 31, 59, 90, 120, 151, 181, 212, 243, 273, 304, 334]"

definition is_leap :: "int \<Rightarrow> bool" where
  "is_leap year \<longleftrightarrow> year mod 4 = 0 \<and> (year mod 100 \<noteq> 0 \<or> year mod 400 = 0)"

definition days_before_year :: "int \<Rightarrow> int" where
  "days_before_year year =
     (let y = year - 1 in y * 365 + y div 4 - y div 100 + y div 400)"

text \<open>
  The two table look-ups are only reached with \<open>1 \<le> month \<le> 12\<close> (the library asserts
  it, and every caller below checks it first), so the index is always inside the table.
\<close>

definition days_in_month :: "int \<Rightarrow> int \<Rightarrow> int" where
  "days_in_month year month =
     (if month = 2 \<and> is_leap year then 29 else DAYS_IN_MONTH ! nat month)"

definition days_before_month :: "int \<Rightarrow> int \<Rightarrow> int" where
  "days_before_month year month =
     DAYS_BEFORE_MONTH ! nat month + (if month > 2 \<and> is_leap year then 1 else 0)"

definition ymd2ord :: "int \<Rightarrow> int \<Rightarrow> int \<Rightarrow> int" where
  "ymd2ord year month day =
     days_before_year year + days_before_month year month + day"

definition DI400Y :: int where
  "DI400Y = days_before_year 401"

definition DI100Y :: int where
  "DI100Y = days_before_year 101"

definition DI4Y :: int where
  "DI4Y = days_before_year 5"

definition ord2ymd :: "int \<Rightarrow> int \<times> int \<times> int" where
  "ord2ymd ordinal =
     (let n = ordinal - 1;
          n400 = n div DI400Y; n = n mod DI400Y;
          year = n400 * 400 + 1;
          n100 = n div DI100Y; n = n mod DI100Y;
          n4 = n div DI4Y; n = n mod DI4Y;
          n1 = n div 365; n = n mod 365;
          year = year + (n100 * 100 + n4 * 4 + n1)
      in if n1 = 4 \<or> n100 = 4 then (year - 1, 12, 31)
         else
           let leapyear = (n1 = 3 \<and> (n4 \<noteq> 24 \<or> n100 = 3));
               month = drop_bit 5 (n + 50);
               preceding = DAYS_BEFORE_MONTH ! nat month
                             + (if month > 2 \<and> leapyear then 1 else 0)
           in if preceding > n then
                let month = month - 1;
                    preceding = preceding
                      - (DAYS_IN_MONTH ! nat month + (if month = 2 \<and> leapyear then 1 else 0))
                in (year, month, n - preceding + 1)
              else (year, month, n - preceding + 1))"

text \<open>An argument of \<^verbatim>\<open>date(...)\<close> or \<^verbatim>\<open>date.fromordinal(...)\<close> must fit a C \<^verbatim>\<open>int\<close>.\<close>

definition c_int :: "int \<Rightarrow> bool" where
  "c_int i \<longleftrightarrow> - 2147483648 \<le> i \<and> i \<le> 2147483647"

text \<open>\<^verbatim>\<open>date(year, month, day)\<close>: the constructor with its checks, in the library's order.\<close>

definition date_new :: "int \<Rightarrow> int \<Rightarrow> int \<Rightarrow> error + date" where
  "date_new year month day =
     (if \<not> (c_int year \<and> c_int month \<and> c_int day) then Inl OverflowError
      else if \<not> (MINYEAR \<le> year \<and> year \<le> MAXYEAR) then Inl (ValueError Datetime_message)
      else if \<not> (1 \<le> month \<and> month \<le> 12) then Inl (ValueError Datetime_message)
      else if \<not> (1 \<le> day \<and> day \<le> days_in_month year month)
        then Inl (ValueError Datetime_message)
      else Inr \<lparr>date_year = year, date_month = month, date_day = day\<rparr>)"

definition toordinal :: "date \<Rightarrow> int" where
  "toordinal d = ymd2ord (date_year d) (date_month d) (date_day d)"

definition fromordinal :: "int \<Rightarrow> error + date" where
  "fromordinal n =
     (if \<not> c_int n then Inl OverflowError
      else if n < 1 then Inl (ValueError Datetime_message)
      else case ord2ymd n of (y, m, d) \<Rightarrow> date_new y m d)"

section \<open>The converters of \<^verbatim>\<open>src/zemen/converters.py\<close>\<close>

text \<open>
  \<^verbatim>\<open>_greg_to_jdn\<close> (lines 19-35). The \<^verbatim>\<open>try\<close> block builds the date once and replaces any
  \<^verbatim>\<open>ValueError\<close> by the module's own; the \<^verbatim>\<open>return\<close> builds the date a second time.
\<close>

definition greg_to_jdn :: "int \<Rightarrow> int \<Rightarrow> int \<Rightarrow> error + int" where
  "greg_to_jdn year month day =
     (case date_new year month day of
        Inl (ValueError _) \<Rightarrow> Inl (ValueError Invalid_date_for_Gregorian_calendar)
      | Inl OverflowError \<Rightarrow> Inl OverflowError
      | Inr _ \<Rightarrow>
          (case date_new year month day of
             Inl e \<Rightarrow> Inl e
           | Inr d \<Rightarrow> Inr (toordinal d + 1721425)))"

text \<open>\<^verbatim>\<open>jdn_to_greg\<close> (lines 38-50).\<close>

definition jdn_to_greg :: "int \<Rightarrow> error + date" where
  "jdn_to_greg jdn =
     (if jdn < 1721425 then Inl (ValueError Invalid_Julian_Day_Number)
      else fromordinal (jdn - 1721425))"

text \<open>\<^verbatim>\<open>_eth_from_jdn\<close> (lines 53-74).\<close>

definition eth_from_jdn :: "int \<Rightarrow> error + int \<times> int \<times> int" where
  "eth_from_jdn jdn =
     (let JDN_ETH_OFFSET = 1723856 in
      if jdn < 1721425 then Inl (ValueError Invalid_Julian_Day_Number)
      else
        let r = (jdn - JDN_ETH_OFFSET) mod 1461;
            n = (r mod 365) + (365 * (r div 1460));
            year = 4 * ((jdn - JDN_ETH_OFFSET) div 1461) + (r div 365) - (r div 1460);
            month = n div 30 + 1;
            day = n mod 30 + 2
        in Inr (year, month, day))"

text \<open>\<^verbatim>\<open>eth_from_greg\<close> (lines 77-91): an exception of the first call ends the function.\<close>

definition eth_from_greg :: "int \<Rightarrow> int \<Rightarrow> int \<Rightarrow> error + int \<times> int \<times> int" where
  "eth_from_greg year month day =
     (case greg_to_jdn year month day of
        Inl e \<Rightarrow> Inl e
      | Inr jdn \<Rightarrow> eth_from_jdn jdn)"

text \<open>
  \<^verbatim>\<open>eth_to_greg\<close> (lines 94-105): the body is a docstring and nothing else, so a call
  falls off the end of the function and yields Python's \<^verbatim>\<open>None\<close>.
\<close>

definition eth_to_greg :: "int \<Rightarrow> int \<Rightarrow> int \<Rightarrow> error + (int \<times> int \<times> int) option" where
  "eth_to_greg year month day = Inr None"


section \<open>The calendar of the specification\<close>

text \<open>
  What the specification calls a valid Gregorian date: a month from 1 to 12 and a day
  that exists in that month, where February has 29 days in a leap year (a year divisible
  by 4, and not by 100 unless by 400) and 28 otherwise. The year is not restricted.
\<close>

definition gregorian_leap_year :: "int \<Rightarrow> bool" where
  "gregorian_leap_year year \<longleftrightarrow> 4 dvd year \<and> (\<not> 100 dvd year \<or> 400 dvd year)"

definition gregorian_month_length :: "int \<Rightarrow> int \<Rightarrow> int" where
  "gregorian_month_length year month =
     (if month = 2 then (if gregorian_leap_year year then 29 else 28)
      else if month = 4 \<or> month = 6 \<or> month = 9 \<or> month = 11 then 30
      else 31)"

definition valid_gregorian :: "int \<Rightarrow> int \<Rightarrow> int \<Rightarrow> bool" where
  "valid_gregorian year month day \<longleftrightarrow>
     1 \<le> month \<and> month \<le> 12 \<and> 1 \<le> day \<and> day \<le> gregorian_month_length year month"

text \<open>
  The expression \<^verbatim>\<open>jdn_to_greg(_greg_to_jdn(year, month, day))\<close> of the round-trip
  property: an exception of the inner call ends the evaluation.
\<close>

definition greg_round_trip :: "int \<Rightarrow> int \<Rightarrow> int \<Rightarrow> error + date" where
  "greg_round_trip year month day =
     (case greg_to_jdn year month day of
        Inl e \<Rightarrow> Inl e
      | Inr jdn \<Rightarrow> jdn_to_greg jdn)"

section \<open>The month estimate of \<^verbatim>\<open>_ord2ymd\<close>\<close>

text \<open>
  The last part of \<^verbatim>\<open>_ord2ymd\<close>, from the estimate of the month to the result, as a
  function of the year, the leap-year flag and the day offset \<open>n\<close> within the year. It is
  used in the proofs only; \<open>ord2ymd_eq\<close> below shows that \<open>ord2ymd\<close> ends with it.
\<close>

definition ord2ymd_tail :: "int \<Rightarrow> bool \<Rightarrow> int \<Rightarrow> int \<times> int \<times> int" where
  "ord2ymd_tail year leapyear n =
     (let month = drop_bit 5 (n + 50);
          preceding = DAYS_BEFORE_MONTH ! nat month
                        + (if month > 2 \<and> leapyear then 1 else 0)
      in if preceding > n then
           let month = month - 1;
               preceding = preceding
                 - (DAYS_IN_MONTH ! nat month + (if month = 2 \<and> leapyear then 1 else 0))
           in (year, month, n - preceding + 1)
         else (year, month, n - preceding + 1))"

section \<open>Evaluation\<close>

lemmas datetime_defs =
  c_int_def MINYEAR_def MAXYEAR_def is_leap_def days_before_year_def days_in_month_def
  days_before_month_def ymd2ord_def DAYS_IN_MONTH_def DAYS_BEFORE_MONTH_def
  date_new_def toordinal_def

lemma DI_values: "DI400Y = 146097" "DI100Y = 36524" "DI4Y = 1461"
  by (simp_all add: DI400Y_def DI100Y_def DI4Y_def days_before_year_def)

section \<open>Days before a year\<close>

text \<open>
  Going from a year to the next adds the length of the year, so the number of days
  before a year grows with the year.
\<close>

lemma div_pred_eq:
  fixes y k :: int
  assumes "0 < k"
  shows "(y - 1) div k = y div k - (if y mod k = 0 then 1 else 0)"
proof (cases "y mod k = 0")
  case True
  have "y = k * (y div k) + y mod k"
    by simp
  with True have "y - 1 = k * (y div k - 1) + (k - 1)"
    by (simp add: algebra_simps)
  moreover have "0 \<le> k - 1" "k - 1 < k"
    using assms by simp_all
  ultimately have "(y - 1) div k = y div k - 1"
    by (intro int_div_pos_eq)
  with True show ?thesis
    by simp
next
  case False
  have "0 \<le> y mod k" "y mod k < k"
    using assms by simp_all
  with False have "0 \<le> y mod k - 1" "y mod k - 1 < k"
    by linarith+
  moreover have "y - 1 = k * (y div k) + (y mod k - 1)"
    by simp
  ultimately have "(y - 1) div k = y div k"
    by (intro int_div_pos_eq)
  with False show ?thesis
    by simp
qed

lemma mod_400_imp:
  fixes y :: int
  assumes "y mod 400 = 0"
  shows "y mod 100 = 0" "y mod 4 = 0"
proof -
  from assms have "400 dvd y"
    by (simp add: mod_eq_0_iff_dvd)
  moreover have "(100::int) dvd 400" "(4::int) dvd 400"
    by simp_all
  ultimately have "100 dvd y" "4 dvd y"
    by (blast intro: dvd_trans)+
  then show "y mod 100 = 0" "y mod 4 = 0"
    by (simp_all add: mod_eq_0_iff_dvd)
qed

lemma mod_100_imp:
  fixes y :: int
  assumes "y mod 100 = 0"
  shows "y mod 4 = 0"
proof -
  from assms have "100 dvd y"
    by (simp add: mod_eq_0_iff_dvd)
  moreover have "(4::int) dvd 100"
    by simp
  ultimately have "4 dvd y"
    by (blast intro: dvd_trans)
  then show ?thesis
    by (simp add: mod_eq_0_iff_dvd)
qed

lemma days_before_year_step:
  "days_before_year (y + 1) = days_before_year y + (if is_leap y then 366 else 365)"
proof -
  define p4 p100 p400 where "p4 \<longleftrightarrow> y mod 4 = 0" and "p100 \<longleftrightarrow> y mod 100 = 0"
    and "p400 \<longleftrightarrow> y mod 400 = 0"
  define a4 a100 a400 where "a4 = y div 4" and "a100 = y div 100" and "a400 = y div 400"
  have pred: "(y - 1) div 4 = a4 - (if p4 then 1 else 0)"
       "(y - 1) div 100 = a100 - (if p100 then 1 else 0)"
       "(y - 1) div 400 = a400 - (if p400 then 1 else 0)"
    unfolding p4_def p100_def p400_def a4_def a100_def a400_def
    by (rule div_pred_eq, simp)+
  have imp: "p400 \<longrightarrow> p100" "p100 \<longrightarrow> p4"
    unfolding p4_def p100_def p400_def
    using mod_400_imp(1) [of y] mod_100_imp [of y] by blast+
  have leap: "is_leap y \<longleftrightarrow> p4 \<and> (\<not> p100 \<or> p400)"
    by (simp add: is_leap_def p4_def p100_def p400_def)
  have "days_before_year (y + 1) = y * 365 + a4 - a100 + a400"
    by (simp add: days_before_year_def a4_def a100_def a400_def)
  moreover have "days_before_year y =
      (y - 1) * 365 + (a4 - (if p4 then 1 else 0)) - (a100 - (if p100 then 1 else 0))
        + (a400 - (if p400 then 1 else 0))"
    unfolding days_before_year_def Let_def pred ..
  ultimately show ?thesis
    using imp unfolding leap
    by (cases p4; cases p100; cases p400) (simp_all add: algebra_simps)
qed

lemma days_before_year_le:
  assumes "y \<le> y'"
  shows "days_before_year y + 365 * (y' - y) \<le> days_before_year y'"
  using assms
proof (induction y' rule: int_ge_induct)
  case base
  show ?case by simp
next
  case (step i)
  then show ?case
    by (simp add: days_before_year_step)
qed

section \<open>The 400-year, 100-year and 4-year cycles\<close>

text \<open>
  A year number minus one, written as \<open>400 a + 100 b + 4 c + e\<close> with \<open>b \<le> 3\<close>,
  \<open>c \<le> 24\<close> and \<open>e \<le> 3\<close>: the days before the year and its leap-year status in terms
  of the four digits.
\<close>

lemma mod_zero_iff:
  fixes Y k q r :: int
  assumes "Y = k * q + r" "1 \<le> r" "r \<le> k"
  shows "Y mod k = 0 \<longleftrightarrow> r = k"
proof (cases "r = k")
  case True
  with assms(1) have "Y = k * (q + 1)"
    by (simp add: algebra_simps)
  then have "Y mod k = 0"
    by simp
  with True show ?thesis
    by simp
next
  case False
  with assms have "0 \<le> r" "r < k"
    by linarith+
  with assms(1) have "Y mod k = r"
    by (intro int_mod_pos_eq)
  with False assms show ?thesis
    by linarith
qed

lemma days_before_year_cycles:
  assumes "0 \<le> b" "b \<le> 3" "0 \<le> c" "c \<le> 24" "0 \<le> e" "e \<le> 3"
  shows "days_before_year (400 * a + 100 * b + 4 * c + e + 1)
           = 146097 * a + 36524 * b + 1461 * c + 365 * e"
proof -
  define Y where "Y = 400 * a + 100 * b + 4 * c + e"
  have "Y = 4 * (100 * a + 25 * b + c) + e"
    by (simp add: Y_def)
  moreover note \<open>0 \<le> e\<close>
  moreover from \<open>e \<le> 3\<close> have "e < 4"
    by simp
  ultimately have d4: "Y div 4 = 100 * a + 25 * b + c"
    by (rule int_div_pos_eq)
  have "Y = 100 * (4 * a + b) + (4 * c + e)"
    by (simp add: Y_def)
  moreover from assms have "0 \<le> 4 * c + e" "4 * c + e < 100"
    by linarith+
  ultimately have d100: "Y div 100 = 4 * a + b"
    by (rule int_div_pos_eq)
  have "Y = 400 * a + (100 * b + 4 * c + e)"
    by (simp add: Y_def)
  moreover from assms have "0 \<le> 100 * b + 4 * c + e" "100 * b + 4 * c + e < 400"
    by linarith+
  ultimately have d400: "Y div 400 = a"
    by (rule int_div_pos_eq)
  have "days_before_year (Y + 1) = Y * 365 + Y div 4 - Y div 100 + Y div 400"
    by (simp add: days_before_year_def)
  also have "\<dots> = 146097 * a + 36524 * b + 1461 * c + 365 * e"
    unfolding d4 d100 d400 by (simp add: Y_def)
  finally show ?thesis
    by (simp add: Y_def)
qed

lemma is_leap_cycles:
  assumes "0 \<le> b" "b \<le> 3" "0 \<le> c" "c \<le> 24" "0 \<le> e" "e \<le> 3"
  shows "is_leap (400 * a + 100 * b + 4 * c + e + 1) \<longleftrightarrow> e = 3 \<and> (c \<noteq> 24 \<or> b = 3)"
proof -
  define Y where "Y = 400 * a + 100 * b + 4 * c + e + 1"
  have "Y = 4 * (100 * a + 25 * b + c) + (e + 1)"
    by (simp add: Y_def)
  moreover from assms have "1 \<le> e + 1" "e + 1 \<le> 4"
    by linarith+
  ultimately have "Y mod 4 = 0 \<longleftrightarrow> e + 1 = 4"
    by (rule mod_zero_iff)
  then have m4: "Y mod 4 = 0 \<longleftrightarrow> e = 3"
    by linarith
  have "Y = 100 * (4 * a + b) + (4 * c + e + 1)"
    by (simp add: Y_def)
  moreover from assms have "1 \<le> 4 * c + e + 1" "4 * c + e + 1 \<le> 100"
    by linarith+
  ultimately have "Y mod 100 = 0 \<longleftrightarrow> 4 * c + e + 1 = 100"
    by (rule mod_zero_iff)
  with assms have m100: "Y mod 100 = 0 \<longleftrightarrow> c = 24 \<and> e = 3"
    by linarith
  have "Y = 400 * a + (100 * b + 4 * c + e + 1)"
    by (simp add: Y_def)
  moreover from assms have "1 \<le> 100 * b + 4 * c + e + 1" "100 * b + 4 * c + e + 1 \<le> 400"
    by linarith+
  ultimately have "Y mod 400 = 0 \<longleftrightarrow> 100 * b + 4 * c + e + 1 = 400"
    by (rule mod_zero_iff)
  with assms have m400: "Y mod 400 = 0 \<longleftrightarrow> b = 3 \<and> c = 24 \<and> e = 3"
    by linarith
  have "is_leap Y \<longleftrightarrow> e = 3 \<and> (c \<noteq> 24 \<or> b = 3)"
    unfolding is_leap_def m4 m100 m400 by blast
  then show ?thesis
    by (simp add: Y_def)
qed

section \<open>\<^verbatim>\<open>_ord2ymd\<close> inverts \<^verbatim>\<open>_ymd2ord\<close>\<close>

lemma ord2ymd_eq:
  fixes ordinal :: int
  defines "q \<equiv> ordinal - 1"
  defines "a \<equiv> q div 146097" and "r0 \<equiv> q mod 146097"
  defines "b \<equiv> r0 div 36524" and "r1 \<equiv> r0 mod 36524"
  defines "c \<equiv> r1 div 1461" and "r2 \<equiv> r1 mod 1461"
  defines "e \<equiv> r2 div 365" and "k \<equiv> r2 mod 365"
  shows "ord2ymd ordinal =
     (if e = 4 \<or> b = 4 then (a * 400 + 1 + (b * 100 + c * 4 + e) - 1, 12, 31)
      else ord2ymd_tail (a * 400 + 1 + (b * 100 + c * 4 + e)) (e = 3 \<and> (c \<noteq> 24 \<or> b = 3)) k)"
  unfolding ord2ymd_def ord2ymd_tail_def DI_values Let_def
    k_def e_def r2_def c_def r1_def b_def r0_def a_def q_def
  by (rule refl)

lemma month_cases:
  fixes t :: int
  assumes "1 \<le> t" "t \<le> 12"
  obtains "t = 1" | "t = 2" | "t = 3" | "t = 4" | "t = 5" | "t = 6"
    | "t = 7" | "t = 8" | "t = 9" | "t = 10" | "t = 11" | "t = 12"
proof -
  from assms have "t = 1 \<or> t = 2 \<or> t = 3 \<or> t = 4 \<or> t = 5 \<or> t = 6
      \<or> t = 7 \<or> t = 8 \<or> t = 9 \<or> t = 10 \<or> t = 11 \<or> t = 12"
    by presburger
  with that show thesis
    by blast
qed

lemma ord2ymd_tail_correct:
  assumes k: "0 \<le> k" "k \<le> 364"
    and tail: "ord2ymd_tail y leap k = (y', m, d)"
  shows "y' = y \<and> 1 \<le> m \<and> m \<le> 12 \<and> 1 \<le> d
    \<and> d \<le> (if m = 2 \<and> leap then 29 else DAYS_IN_MONTH ! nat m)
    \<and> DAYS_BEFORE_MONTH ! nat m + (if m > 2 \<and> leap then 1 else 0) + d = k + 1"
proof -
  define t where "t = (k + 50) div 32"
  have "k + 50 = 32 * t + (k + 50) mod 32" "0 \<le> (k + 50) mod 32" "(k + 50) mod 32 < 32"
    by (simp_all add: t_def)
  then have t: "32 * t \<le> k + 50" "k + 50 < 32 * t + 32"
    by linarith+
  with k have "1 \<le> t" "t \<le> 12"
    by linarith+
  then consider "t = 1" | "t = 2" | "t = 3" | "t = 4" | "t = 5" | "t = 6"
    | "t = 7" | "t = 8" | "t = 9" | "t = 10" | "t = 11" | "t = 12"
    by (rule month_cases)
  moreover have unfolded: "ord2ymd_tail y leap k =
    (if DAYS_BEFORE_MONTH ! nat t + (if t > 2 \<and> leap then 1 else 0) > k
     then (y, t - 1, k - (DAYS_BEFORE_MONTH ! nat t + (if t > 2 \<and> leap then 1 else 0)
              - (DAYS_IN_MONTH ! nat (t - 1) + (if t - 1 = 2 \<and> leap then 1 else 0))) + 1)
     else (y, t, k - (DAYS_BEFORE_MONTH ! nat t + (if t > 2 \<and> leap then 1 else 0)) + 1))"
    unfolding ord2ymd_tail_def Let_def drop_bit_eq_div t_def by simp
  ultimately show ?thesis
    using tail t k unfolding unfolded
    by cases (auto simp add: DAYS_BEFORE_MONTH_def DAYS_IN_MONTH_def split: if_splits)
qed

text \<open>
  For every ordinal, \<^verbatim>\<open>_ord2ymd\<close> returns a month and a day that exist (which is the
  library function's final assertion), and the ordinal of the returned date is the given
  one. From the ordinal 1 on, the year is at least 1.
\<close>

lemma ord2ymd_correct:
  assumes result: "ord2ymd n = (y, m, d)"
  shows "1 \<le> m \<and> m \<le> 12 \<and> 1 \<le> d \<and> d \<le> days_in_month y m \<and> ymd2ord y m d = n
    \<and> (1 \<le> n \<longrightarrow> 1 \<le> y)"
proof -
  define q where "q = n - 1"
  define a r0 where "a = q div 146097" and "r0 = q mod 146097"
  define b r1 where "b = r0 div 36524" and "r1 = r0 mod 36524"
  define c r2 where "c = r1 div 1461" and "r2 = r1 mod 1461"
  define e k where "e = r2 div 365" and "k = r2 mod 365"
  have eq: "ord2ymd n =
     (if e = 4 \<or> b = 4 then (a * 400 + 1 + (b * 100 + c * 4 + e) - 1, 12, 31)
      else ord2ymd_tail (a * 400 + 1 + (b * 100 + c * 4 + e)) (e = 3 \<and> (c \<noteq> 24 \<or> b = 3)) k)"
    unfolding k_def e_def r2_def c_def r1_def b_def r0_def a_def q_def
    by (rule ord2ymd_eq)
  have n: "n = q + 1"
    by (simp add: q_def)
  have q: "q = 146097 * a + r0" "0 \<le> r0" "r0 < 146097"
    by (simp_all add: a_def r0_def)
  have r0: "r0 = 36524 * b + r1" "0 \<le> r1" "r1 < 36524"
    by (simp_all add: b_def r1_def)
  have r1: "r1 = 1461 * c + r2" "0 \<le> r2" "r2 < 1461"
    by (simp_all add: c_def r2_def)
  have r2: "r2 = 365 * e + k" "0 \<le> k" "k < 365"
    by (simp_all add: e_def k_def)
  from q r0 have b: "0 \<le> b" "b \<le> 4"
    by linarith+
  from r0 r1 have c: "0 \<le> c" "c \<le> 24"
    by linarith+
  from r1 r2 have e: "0 \<le> e" "e \<le> 4"
    by linarith+
  have a: "1 \<le> n \<longrightarrow> 0 \<le> a"
    using n q by linarith
  have tables: "DAYS_IN_MONTH ! nat 12 = 31" "DAYS_BEFORE_MONTH ! nat 12 = 334"
    by (simp_all add: DAYS_IN_MONTH_def DAYS_BEFORE_MONTH_def)
  show ?thesis
  proof (cases "b = 4")
    case True
    with q r0 r1 r2 c e have zero: "r1 = 0" "c = 0" "r2 = 0" "e = 0" "k = 0"
      by linarith+
    from result True have ymd: "y = 400 * a + 100 * 3 + 4 * 24 + 3 + 1" "m = 12" "d = 31"
      unfolding eq zero by simp_all
    have "days_before_year y = 146097 * a + 36524 * 3 + 1461 * 24 + 365 * 3"
      unfolding ymd by (rule days_before_year_cycles) simp_all
    moreover have "is_leap y \<longleftrightarrow> (3::int) = 3 \<and> ((24::int) \<noteq> 24 \<or> (3::int) = 3)"
      unfolding ymd by (rule is_leap_cycles) simp_all
    ultimately have "ymd2ord y m d = n" "d \<le> days_in_month y m"
      using True zero q r0 n tables
      by (simp_all add: ymd2ord_def days_before_month_def days_in_month_def ymd(2,3))
    moreover from a have "1 \<le> n \<longrightarrow> 1 \<le> y"
      unfolding ymd by linarith
    ultimately show ?thesis
      by (simp add: ymd(2,3))
  next
    case False
    with b have b3: "b \<le> 3"
      by linarith
    show ?thesis
    proof (cases "e = 4")
      case True
      with r1 r2 r0 False b3 have facts: "k = 0" "c \<le> 23"
        by linarith+
      from result True have ymd: "y = 400 * a + 100 * b + 4 * c + 3 + 1" "m = 12" "d = 31"
        unfolding eq by simp_all
      from b b3 c facts have "days_before_year y = 146097 * a + 36524 * b + 1461 * c + 365 * 3"
        unfolding ymd by (intro days_before_year_cycles) simp_all
      moreover from b b3 c facts
      have "is_leap y \<longleftrightarrow> (3::int) = 3 \<and> (c \<noteq> 24 \<or> b = 3)"
        unfolding ymd by (intro is_leap_cycles) simp_all
      with facts have "is_leap y"
        by simp
      ultimately have "ymd2ord y m d = n" "d \<le> days_in_month y m"
        using True facts q r0 r1 r2 n tables
        by (simp_all add: ymd2ord_def days_before_month_def days_in_month_def ymd(2,3))
      moreover from a b c have "1 \<le> n \<longrightarrow> 1 \<le> y"
        unfolding ymd by linarith
      ultimately show ?thesis
        by (simp add: ymd(2,3))
    next
      case e4: False
      with e have e3: "e \<le> 3"
        by linarith
      define Y where "Y = 400 * a + 100 * b + 4 * c + e + 1"
      define L where "L \<longleftrightarrow> e = 3 \<and> (c \<noteq> 24 \<or> b = 3)"
      have Y: "a * 400 + 1 + (b * 100 + c * 4 + e) = Y"
        by (simp add: Y_def)
      from result False e4 have tail: "ord2ymd_tail Y L k = (y, m, d)"
        unfolding eq Y L_def by simp
      from r2 have "0 \<le> k" "k \<le> 364"
        by linarith+
      from ord2ymd_tail_correct [OF this tail]
      have y: "y = Y" and m: "1 \<le> m" "m \<le> 12" and d: "1 \<le> d"
        "d \<le> (if m = 2 \<and> L then 29 else DAYS_IN_MONTH ! nat m)"
        and doy: "DAYS_BEFORE_MONTH ! nat m + (if m > 2 \<and> L then 1 else 0) + d = k + 1"
        by simp_all
      from b b3 c e e3 have dby: "days_before_year Y = 146097 * a + 36524 * b + 1461 * c + 365 * e"
        unfolding Y_def by (intro days_before_year_cycles)
      from b b3 c e e3 have leap: "is_leap Y \<longleftrightarrow> L"
        unfolding Y_def L_def by (intro is_leap_cycles)
      have "ymd2ord y m d = days_before_year Y + (k + 1)"
        unfolding ymd2ord_def days_before_month_def y leap using doy by simp
      also have "\<dots> = n"
        unfolding dby using q r0 r1 r2 n by linarith
      finally have "ymd2ord y m d = n" .
      moreover from d(2) have "d \<le> days_in_month y m"
        unfolding days_in_month_def y leap .
      moreover from a b c e have "1 \<le> n \<longrightarrow> 1 \<le> y"
        unfolding y Y_def by linarith
      ultimately show ?thesis
        using m d by simp
    qed
  qed
qed

section \<open>\<^verbatim>\<open>_ymd2ord\<close> is injective on dates that exist\<close>

lemma day_of_year_range:
  assumes "1 \<le> m" "m \<le> 12" "1 \<le> d" "d \<le> days_in_month y m"
  shows "1 \<le> days_before_month y m + d"
    and "days_before_month y m + d \<le> (if is_leap y then 366 else 365)"
  by (insert assms(3,4), rule month_cases [OF assms(1,2)];
      simp add: days_before_month_def days_in_month_def DAYS_BEFORE_MONTH_def DAYS_IN_MONTH_def
        split: if_splits)+

lemma month_day_unique:
  assumes "1 \<le> m" "m \<le> 12" "1 \<le> d" "d \<le> days_in_month y m"
    and "1 \<le> m'" "m' \<le> 12" "1 \<le> d'" "d' \<le> days_in_month y m'"
    and "days_before_month y m + d = days_before_month y m' + d'"
  shows "m = m' \<and> d = d'"
  by (insert assms(3,4,7,8,9),
      rule month_cases [OF assms(1,2)]; rule month_cases [OF assms(5,6)];
      simp add: days_before_month_def days_in_month_def DAYS_BEFORE_MONTH_def DAYS_IN_MONTH_def
        split: if_splits)

lemma ymd2ord_less:
  assumes "1 \<le> m" "m \<le> 12" "1 \<le> d" "d \<le> days_in_month y m"
    and "1 \<le> m'" "m' \<le> 12" "1 \<le> d'" "d' \<le> days_in_month y' m'"
    and "y < y'"
  shows "ymd2ord y m d < ymd2ord y' m' d'"
proof -
  have "ymd2ord y m d \<le> days_before_year y + (if is_leap y then 366 else 365)"
    unfolding ymd2ord_def using day_of_year_range(2) [OF assms(1-4)] by linarith
  also have "\<dots> = days_before_year (y + 1)"
    by (simp add: days_before_year_step)
  also from \<open>y < y'\<close> have "\<dots> \<le> days_before_year y'"
    using days_before_year_le [of "y + 1" y'] by simp
  also have "\<dots> < ymd2ord y' m' d'"
    unfolding ymd2ord_def using day_of_year_range(1) [OF assms(5-8)] by linarith
  finally show ?thesis .
qed

lemma ymd2ord_inj:
  assumes "1 \<le> m" "m \<le> 12" "1 \<le> d" "d \<le> days_in_month y m"
    and "1 \<le> m'" "m' \<le> 12" "1 \<le> d'" "d' \<le> days_in_month y' m'"
    and same: "ymd2ord y m d = ymd2ord y' m' d'"
  shows "y = y' \<and> m = m' \<and> d = d'"
proof -
  have "\<not> y < y'"
    using ymd2ord_less [OF assms(1-8)] same by auto
  moreover have "\<not> y' < y"
    using ymd2ord_less [OF assms(5-8) assms(1-4)] same by auto
  ultimately have y: "y' = y"
    by linarith
  with same have "days_before_month y m + d = days_before_month y m' + d'"
    by (simp add: ymd2ord_def)
  from month_day_unique [OF assms(1-4) assms(5-7) assms(8) [unfolded y] this] y
  show ?thesis
    by simp
qed

section \<open>\<^verbatim>\<open>date.toordinal\<close> and \<^verbatim>\<open>date.fromordinal\<close>\<close>

lemma is_leap_gregorian: "is_leap y \<longleftrightarrow> gregorian_leap_year y"
  by (simp add: is_leap_def gregorian_leap_year_def mod_eq_0_iff_dvd)

lemma days_in_month_gregorian:
  assumes "1 \<le> m" "m \<le> 12"
  shows "days_in_month y m = gregorian_month_length y m"
  by (rule month_cases [OF assms];
      simp add: days_in_month_def gregorian_month_length_def DAYS_IN_MONTH_def is_leap_gregorian)

lemma gregorian_month_length_le: "gregorian_month_length y m \<le> 31"
  by (simp add: gregorian_month_length_def)

lemma date_new_valid:
  assumes "1 \<le> y" "y \<le> 9999" "valid_gregorian y m d"
  shows "date_new y m d = Inr \<lparr>date_year = y, date_month = m, date_day = d\<rparr>"
proof -
  from assms(3) have m: "1 \<le> m" "m \<le> 12" and d: "1 \<le> d" "d \<le> gregorian_month_length y m"
    by (simp_all add: valid_gregorian_def)
  from d gregorian_month_length_le [of y m] have "d \<le> 31"
    by linarith
  with assms(1,2) m d show ?thesis
    by (simp add: date_new_def c_int_def MINYEAR_def MAXYEAR_def days_in_month_gregorian)
qed

lemma date_new_Inr:
  assumes "date_new y m d = Inr dt"
  shows "dt = \<lparr>date_year = y, date_month = m, date_day = d\<rparr>"
    and "1 \<le> y" "y \<le> 9999" "1 \<le> m" "m \<le> 12" "1 \<le> d" "d \<le> days_in_month y m"
    and "c_int y" "c_int m" "c_int d"
  using assms by (auto simp add: date_new_def MINYEAR_def MAXYEAR_def split: if_splits)

lemma date_new_invalid:
  assumes "1 \<le> y" "y \<le> 9999" "\<not> valid_gregorian y m d"
  shows "date_new y m d =
    Inl (if c_int m \<and> c_int d then ValueError Datetime_message else OverflowError)"
proof (cases "1 \<le> m \<and> m \<le> 12")
  case True
  with assms(3) have "\<not> (1 \<le> d \<and> d \<le> days_in_month y m)"
    by (simp add: valid_gregorian_def days_in_month_gregorian)
  with assms(1,2) True show ?thesis
    by (simp add: date_new_def c_int_def MINYEAR_def MAXYEAR_def)
next
  case False
  with assms(1,2) show ?thesis
    by (simp add: date_new_def c_int_def MINYEAR_def MAXYEAR_def)
qed

lemma date_new_Inr_valid:
  assumes "date_new y m d = Inr dt"
  shows "valid_gregorian y m d"
  using date_new_Inr(4-7) [OF assms]
  by (simp add: valid_gregorian_def days_in_month_gregorian)

lemma days_before_year_values:
  "days_before_year 1 = 0" "days_before_year 10000 = 3652059"
  by (simp_all add: days_before_year_def)

lemma ymd2ord_range:
  assumes "1 \<le> y" "y \<le> 9999" "1 \<le> m" "m \<le> 12" "1 \<le> d" "d \<le> days_in_month y m"
  shows "1 \<le> ymd2ord y m d" "ymd2ord y m d \<le> 3652059"
proof -
  from \<open>1 \<le> y\<close> have "0 \<le> days_before_year y"
    using days_before_year_le [of 1 y] by (simp add: days_before_year_values)
  with day_of_year_range(1) [OF assms(3-6)] show "1 \<le> ymd2ord y m d"
    unfolding ymd2ord_def by linarith
  have "ymd2ord y m d \<le> days_before_year y + (if is_leap y then 366 else 365)"
    unfolding ymd2ord_def using day_of_year_range(2) [OF assms(3-6)] by linarith
  also have "\<dots> = days_before_year (y + 1)"
    by (simp add: days_before_year_step)
  also from \<open>y \<le> 9999\<close> have "\<dots> \<le> days_before_year 10000"
    using days_before_year_le [of "y + 1" 10000] by simp
  finally show "ymd2ord y m d \<le> 3652059"
    by (simp add: days_before_year_values)
qed

lemma fromordinal_toordinal:
  assumes "date_new y m d = Inr dt"
  shows "fromordinal (toordinal dt) = Inr dt"
proof -
  note ok = date_new_Inr [OF assms]
  define n where "n = ymd2ord y m d"
  have n: "1 \<le> n" "n \<le> 3652059"
    unfolding n_def by (rule ymd2ord_range [OF ok(2-7)])+
  obtain y' m' d' where triple: "ord2ymd n = (y', m', d')"
    by (cases "ord2ymd n")
  from ord2ymd_correct [OF triple]
  have valid': "1 \<le> m'" "m' \<le> 12" "1 \<le> d'" "d' \<le> days_in_month y' m'"
    and same: "ymd2ord y' m' d' = ymd2ord y m d"
    by (simp_all add: n_def)
  from ymd2ord_inj [OF valid' ok(4-7) same] have "y' = y" "m' = m" "d' = d"
    by simp_all
  with triple n assms have "fromordinal n = Inr dt"
    by (simp add: fromordinal_def c_int_def)
  then show ?thesis
    by (simp add: n_def toordinal_def ok(1))
qed

lemma toordinal_fromordinal:
  assumes "fromordinal n = Inr dt"
  shows "toordinal dt = n"
    and "date_new (date_year dt) (date_month dt) (date_day dt) = Inr dt"
proof -
  obtain y m d where triple: "ord2ymd n = (y, m, d)"
    by (cases "ord2ymd n")
  with assms have new: "date_new y m d = Inr dt"
    by (simp add: fromordinal_def split: if_splits)
  note ok = date_new_Inr [OF new]
  from ord2ymd_correct [OF triple] show "toordinal dt = n"
    by (simp add: toordinal_def ok(1))
  from new show "date_new (date_year dt) (date_month dt) (date_day dt) = Inr dt"
    by (simp add: ok(1))
qed

lemma fromordinal_beyond_max:
  assumes "3652059 < n"
  shows "fromordinal n = Inl (ValueError Datetime_message) \<or> fromordinal n = Inl OverflowError"
proof (cases "c_int n")
  case False
  then show ?thesis
    by (simp add: fromordinal_def)
next
  case True
  obtain y m d where triple: "ord2ymd n = (y, m, d)"
    by (cases "ord2ymd n")
  from ord2ymd_correct [OF triple]
  have valid: "1 \<le> m" "m \<le> 12" "1 \<le> d" "d \<le> days_in_month y m"
    and n: "ymd2ord y m d = n"
    by simp_all
  have "\<not> y \<le> 9999"
  proof
    assume "y \<le> 9999"
    have "ymd2ord y m d \<le> days_before_year y + (if is_leap y then 366 else 365)"
      unfolding ymd2ord_def using day_of_year_range(2) [OF valid] by linarith
    also have "\<dots> = days_before_year (y + 1)"
      by (simp add: days_before_year_step)
    also from \<open>y \<le> 9999\<close> have "\<dots> \<le> days_before_year 10000"
      using days_before_year_le [of "y + 1" 10000] by simp
    finally show False
      using assms n by (simp add: days_before_year_values)
  qed
  then have "date_new y m d = Inl (ValueError Datetime_message) \<or> date_new y m d = Inl OverflowError"
    by (simp add: date_new_def MAXYEAR_def)
  with True assms triple show ?thesis
    by (simp add: fromordinal_def)
qed

section \<open>Gregorian dates and day numbers\<close>

lemma greg_to_jdn_Inr:
  assumes "date_new y m d = Inr dt"
  shows "greg_to_jdn y m d = Inr (toordinal dt + 1721425)"
  using assms by (simp add: greg_to_jdn_def)

text \<open>
  C1, as stated (for every valid Gregorian date with year at least 1, converting to a day
  number and back returns the date), is false: 10000-01-01 is a valid Gregorian date, and
  \<^verbatim>\<open>_greg_to_jdn\<close> rejects it, because \<^verbatim>\<open>datetime.date\<close> has no year after 9999.
\<close>

theorem greg_round_trip_beyond_9999:
  "valid_gregorian 10000 1 1 \<and> (1::int) \<le> 10000 \<and>
   greg_round_trip 10000 1 1 = Inl InvalidDateError \<and>
   greg_round_trip 10000 1 1 \<noteq> Inr \<lparr>date_year = 10000, date_month = 1, date_day = 1\<rparr>"
  by (simp add: valid_gregorian_def gregorian_month_length_def greg_round_trip_def
      greg_to_jdn_def date_new_def c_int_def MINYEAR_def MAXYEAR_def InvalidDateError_def)

text \<open>
  C1, amended: for every valid Gregorian date with a year from 1 to 9999,
  \<^verbatim>\<open>jdn_to_greg(_greg_to_jdn(y, m, d))\<close> returns the date; and for every day number on
  which \<^verbatim>\<open>jdn_to_greg\<close> succeeds, \<^verbatim>\<open>_greg_to_jdn\<close> of the returned date returns that
  day number.
\<close>

theorem greg_jdn_round_trip:
  "(valid_gregorian year month day \<and> 1 \<le> year \<and> year \<le> 9999 \<longrightarrow>
      greg_round_trip year month day
        = Inr \<lparr>date_year = year, date_month = month, date_day = day\<rparr>) \<and>
   (jdn_to_greg jdn = Inr dt \<longrightarrow>
      greg_to_jdn (date_year dt) (date_month dt) (date_day dt) = Inr jdn)"
proof (intro conjI impI)
  assume "valid_gregorian year month day \<and> 1 \<le> year \<and> year \<le> 9999"
  then have new: "date_new year month day
      = Inr \<lparr>date_year = year, date_month = month, date_day = day\<rparr>"
    by (simp add: date_new_valid)
  define dt' where "dt' = \<lparr>date_year = year, date_month = month, date_day = day\<rparr>"
  from new have new': "date_new year month day = Inr dt'"
    by (simp add: dt'_def)
  note ok = date_new_Inr [OF new']
  from ymd2ord_range(1) [OF ok(2-7)] have "0 \<le> toordinal dt'"
    by (simp add: toordinal_def dt'_def)
  then have "jdn_to_greg (toordinal dt' + 1721425) = fromordinal (toordinal dt')"
    by (simp add: jdn_to_greg_def)
  also have "\<dots> = Inr dt'"
    using new' by (rule fromordinal_toordinal)
  finally show "greg_round_trip year month day
      = Inr \<lparr>date_year = year, date_month = month, date_day = day\<rparr>"
    by (simp add: greg_round_trip_def greg_to_jdn_Inr [OF new'] dt'_def)
next
  assume "jdn_to_greg jdn = Inr dt"
  then have "fromordinal (jdn - 1721425) = Inr dt"
    by (simp add: jdn_to_greg_def split: if_splits)
  from toordinal_fromordinal [OF this]
  show "greg_to_jdn (date_year dt) (date_month dt) (date_day dt) = Inr jdn"
    by (simp add: greg_to_jdn_Inr)
qed

theorem greg_jdn_round_trip_witness:
  "valid_gregorian 2015 9 11 \<and> (1::int) \<le> 2015 \<and> (2015::int) \<le> 9999 \<and>
   greg_round_trip 2015 9 11 = Inr \<lparr>date_year = 2015, date_month = 9, date_day = 11\<rparr> \<and>
   jdn_to_greg 2457277 = Inr \<lparr>date_year = 2015, date_month = 9, date_day = 11\<rparr> \<and>
   greg_to_jdn 2015 9 11 = Inr 2457277"
proof -
  have valid: "valid_gregorian 2015 9 11"
    by (simp add: valid_gregorian_def gregorian_month_length_def)
  have backward: "jdn_to_greg 2457277 = Inr \<lparr>date_year = 2015, date_month = 9, date_day = 11\<rparr>"
    by (simp add: jdn_to_greg_def fromordinal_def ord2ymd_def DI_values Let_def drop_bit_eq_div
        datetime_defs)
  from valid backward
    greg_jdn_round_trip [of 2015 9 11 2457277
      "\<lparr>date_year = 2015, date_month = 9, date_day = 11\<rparr>"]
  show ?thesis
    by simp
qed

section \<open>The Ethiopian date of a day number\<close>

text \<open>
  The day offset \<open>n\<close> of \<^verbatim>\<open>_eth_from_jdn\<close> lies between 0 and 365, so the month never
  leaves 1..13, for every accepted input.
\<close>

lemma eth_from_jdn_month_range:
  assumes "eth_from_jdn jdn = Inr (year, month, day)"
  shows "1 \<le> month \<and> month \<le> 13"
proof -
  define r where "r = (jdn - 1723856) mod 1461"
  define n where "n = r mod 365 + 365 * (r div 1460)"
  have r: "0 \<le> r" "r < 1461"
    by (simp_all add: r_def)
  have n: "0 \<le> n \<and> n \<le> 365"
  proof (cases "r = 1460")
    case True
    then show ?thesis
      by (simp add: n_def)
  next
    case False
    with r have "r div 1460 = 0"
      by simp
    moreover have "0 \<le> r mod 365" "r mod 365 < 365"
      by simp_all
    ultimately show ?thesis
      by (simp add: n_def)
  qed
  from assms have "month = n div 30 + 1"
    by (simp add: eth_from_jdn_def Let_def n_def r_def split: if_splits)
  moreover from n have "0 \<le> n div 30" "n div 30 \<le> 12"
    by linarith+
  ultimately show ?thesis
    by simp
qed

text \<open>
  C2 (the month is 1..13, and month 13 has day 1..6). The month part holds
  (\<open>eth_from_jdn_month_range\<close>); the day part does not: line 73 adds 2 to \<open>n mod 30\<close>
  where the day of the month is \<open>n mod 30 + 1\<close>, so the sixth day of Pagume of a leap
  year comes out as day 7. The day number 2457277 is Gregorian 2015-09-11.
\<close>

theorem eth_from_jdn_pagume_day_7:
  "eth_from_jdn 2457277 = Inr (2007, 13, 7)"
  by (simp add: eth_from_jdn_def)

text \<open>
  C3, as stated (Gregorian 2015-09-11 converts to Ethiopian (2008, 1, 1)), is false:
  the result is a date of month 13 of the year 2007.
\<close>

theorem eth_from_greg_2015_09_11_not_new_year:
  "eth_from_greg 2015 9 11 = Inr (2007, 13, 7) \<and> eth_from_greg 2015 9 11 \<noteq> Inr (2008, 1, 1)"
  by (simp add: eth_from_greg_def greg_to_jdn_def eth_from_jdn_def datetime_defs)

text \<open>
  C3, amended: Gregorian 2015-09-11 converts to a date in month 13 of the Ethiopian
  year 2007, and the following day, 2015-09-12, to a date in month 1 of the year 2008.
\<close>

theorem eth_from_greg_2015_new_year:
  "(\<exists>day. eth_from_greg 2015 9 11 = Inr (2007, 13, day)) \<and>
   (\<exists>day. eth_from_greg 2015 9 12 = Inr (2008, 1, day))"
  by (simp add: eth_from_greg_def greg_to_jdn_def eth_from_jdn_def datetime_defs)


text \<open>
  C5: \<^verbatim>\<open>_eth_from_jdn\<close> fails with the invalid-JDN error exactly when \<open>jdn < 1721425\<close>,
  and returns a triple for every other input.
\<close>

theorem eth_from_jdn_fails_iff:
  "(eth_from_jdn jdn = Inl InvalidJdnError \<longleftrightarrow> jdn < 1721425) \<and>
   (1721425 \<le> jdn \<longrightarrow> (\<exists>t. eth_from_jdn jdn = Inr t))"
  by (simp add: eth_from_jdn_def Let_def InvalidJdnError_def)

theorem eth_from_jdn_fails_iff_witness:
  "(1721425::int) \<le> 1721425 \<and> (\<exists>t. eth_from_jdn 1721425 = Inr t) \<and>
   (1721424::int) < 1721425 \<and> eth_from_jdn 1721424 = Inl InvalidJdnError"
  using eth_from_jdn_fails_iff [of 1721425] eth_from_jdn_fails_iff [of 1721424]
  by simp

text \<open>
  C6: \<^verbatim>\<open>_greg_to_jdn\<close> validates its input against the Gregorian calendar, leap years
  included: for a year from 1 to 9999 it returns a day number exactly when the triple is
  a valid Gregorian date, and for a triple that is not it fails with the invalid-date
  error (with \<^verbatim>\<open>OverflowError\<close> if the month or the day does not fit a C \<^verbatim>\<open>int\<close>). So
  2000-02-29 is accepted, and 1900-02-29 and 2023-02-30 fail with the invalid-date error.
\<close>

theorem greg_to_jdn_validation:
  "(1 \<le> year \<and> year \<le> 9999 \<longrightarrow>
      ((\<exists>jdn. greg_to_jdn year month day = Inr jdn) \<longleftrightarrow> valid_gregorian year month day)) \<and>
   (1 \<le> year \<and> year \<le> 9999 \<and> \<not> valid_gregorian year month day \<longrightarrow>
      greg_to_jdn year month day =
        Inl (if c_int month \<and> c_int day then InvalidDateError else OverflowError)) \<and>
   greg_to_jdn 2000 2 29 = Inr 2451604 \<and>
   greg_to_jdn 1900 2 29 = Inl InvalidDateError \<and>
   greg_to_jdn 2023 2 30 = Inl InvalidDateError"
proof (intro conjI impI)
  assume range: "1 \<le> year \<and> year \<le> 9999"
  show "(\<exists>jdn. greg_to_jdn year month day = Inr jdn) \<longleftrightarrow> valid_gregorian year month day"
  proof
    assume "\<exists>jdn. greg_to_jdn year month day = Inr jdn"
    then obtain dt where "date_new year month day = Inr dt"
      by (auto simp add: greg_to_jdn_def split: sum.splits error.splits)
    then show "valid_gregorian year month day"
      by (rule date_new_Inr_valid)
  next
    assume "valid_gregorian year month day"
    with range have "date_new year month day
        = Inr \<lparr>date_year = year, date_month = month, date_day = day\<rparr>"
      by (simp add: date_new_valid)
    then show "\<exists>jdn. greg_to_jdn year month day = Inr jdn"
      by (simp add: greg_to_jdn_Inr)
  qed
next
  assume "1 \<le> year \<and> year \<le> 9999 \<and> \<not> valid_gregorian year month day"
  then have "date_new year month day =
      Inl (if c_int month \<and> c_int day then ValueError Datetime_message else OverflowError)"
    by (simp add: date_new_invalid)
  then show "greg_to_jdn year month day =
      Inl (if c_int month \<and> c_int day then InvalidDateError else OverflowError)"
    by (simp add: greg_to_jdn_def InvalidDateError_def)
next
  show "greg_to_jdn 2000 2 29 = Inr 2451604"
    by (simp add: greg_to_jdn_def datetime_defs)
next
  show "greg_to_jdn 1900 2 29 = Inl InvalidDateError"
    by (simp add: greg_to_jdn_def InvalidDateError_def datetime_defs)
next
  show "greg_to_jdn 2023 2 30 = Inl InvalidDateError"
    by (simp add: greg_to_jdn_def InvalidDateError_def datetime_defs)
qed

theorem greg_to_jdn_validation_witness:
  "(1::int) \<le> 2000 \<and> (2000::int) \<le> 9999 \<and> valid_gregorian 2000 2 29 \<and>
   (\<exists>jdn. greg_to_jdn 2000 2 29 = Inr jdn) \<and>
   (1::int) \<le> 1900 \<and> (1900::int) \<le> 9999 \<and> \<not> valid_gregorian 1900 2 29 \<and>
   c_int 2 \<and> c_int 29 \<and> greg_to_jdn 1900 2 29 = Inl InvalidDateError"
proof -
  have a: "valid_gregorian 2000 2 29"
    by (simp add: valid_gregorian_def gregorian_month_length_def gregorian_leap_year_def)
  have b: "\<not> valid_gregorian 1900 2 29"
    by (simp add: valid_gregorian_def gregorian_month_length_def gregorian_leap_year_def)
  have c: "c_int 2" "c_int 29"
    by (simp_all add: c_int_def)
  from a b c greg_to_jdn_validation [of 2000 2 29] greg_to_jdn_validation [of 1900 2 29]
  show ?thesis
    by simp
qed

text \<open>
  C7: \<^verbatim>\<open>eth_from_greg\<close> is \<^verbatim>\<open>_eth_from_jdn\<close> after \<^verbatim>\<open>_greg_to_jdn\<close>: on a day number
  \<open>jdn\<close> from the first it returns what the second returns on \<open>jdn\<close>, and an error of
  the first (the invalid-date error in particular) is its own result, unchanged.
\<close>

theorem eth_from_greg_composition:
  "(greg_to_jdn year month day = Inr jdn \<longrightarrow>
      eth_from_greg year month day = eth_from_jdn jdn) \<and>
   (greg_to_jdn year month day = Inl e \<longrightarrow> eth_from_greg year month day = Inl e)"
  by (simp add: eth_from_greg_def)

theorem eth_from_greg_composition_witness:
  "greg_to_jdn 2015 9 11 = Inr 2457277 \<and>
   eth_from_greg 2015 9 11 = eth_from_jdn 2457277 \<and>
   greg_to_jdn 2023 2 30 = Inl InvalidDateError \<and>
   eth_from_greg 2023 2 30 = Inl InvalidDateError"
proof -
  have a: "greg_to_jdn 2015 9 11 = Inr 2457277"
    by (simp add: greg_to_jdn_def datetime_defs)
  have b: "greg_to_jdn 2023 2 30 = Inl InvalidDateError"
    by (simp add: greg_to_jdn_def InvalidDateError_def datetime_defs)
  from a b
    eth_from_greg_composition [of 2015 9 11 2457277 InvalidDateError]
    eth_from_greg_composition [of 2023 2 30 0 InvalidDateError]
  show ?thesis
    by simp
qed

text \<open>
  C8: for every \<open>jdn \<ge> 1721425\<close> the day returned by \<^verbatim>\<open>_eth_from_jdn\<close> lies in 2..31
  (so it is never 1), and the day 31 is returned for some such input.
\<close>

theorem eth_from_jdn_day_range:
  "(1721425 \<le> jdn \<longrightarrow>
      (\<exists>year month day. eth_from_jdn jdn = Inr (year, month, day) \<and> 2 \<le> day \<and> day \<le> 31)) \<and>
   (\<exists>j year month. 1721425 \<le> j \<and> eth_from_jdn j = Inr (year, month, 31))"
proof
  show "1721425 \<le> jdn \<longrightarrow>
      (\<exists>year month day. eth_from_jdn jdn = Inr (year, month, day) \<and> 2 \<le> day \<and> day \<le> 31)"
  proof
    assume accepted: "1721425 \<le> jdn"
    define r where "r = (jdn - 1723856) mod 1461"
    define n where "n = r mod 365 + 365 * (r div 1460)"
    define y where "y = 4 * ((jdn - 1723856) div 1461) + r div 365 - r div 1460"
    define d where "d = n mod 30 + 2"
    from accepted have result: "eth_from_jdn jdn = Inr (y, n div 30 + 1, d)"
      unfolding eth_from_jdn_def Let_def r_def n_def y_def d_def by simp
    have "0 \<le> n mod 30" "n mod 30 < 30"
      by simp_all
    then have "2 \<le> d" "d \<le> 31"
      unfolding d_def by linarith+
    with result show
      "\<exists>year month day. eth_from_jdn jdn = Inr (year, month, day) \<and> 2 \<le> day \<and> day \<le> 31"
      by blast
  qed
  have "eth_from_jdn 1723885 = Inr (0, 1, 31)"
    by (simp add: eth_from_jdn_def)
  then show "\<exists>j year month. 1721425 \<le> j \<and> eth_from_jdn j = Inr (year, month, 31)"
    by (intro exI [of _ 1723885] exI [of _ 0] exI [of _ 1]) simp
qed

theorem eth_from_jdn_day_range_witness:
  "(1721425::int) \<le> 2457277 \<and>
   (\<exists>year month day. eth_from_jdn 2457277 = Inr (year, month, day) \<and> 2 \<le> day \<and> day \<le> 31)"
  using eth_from_jdn_day_range [of 2457277]
  by simp

text \<open>
  C9: \<^verbatim>\<open>eth_to_greg\<close> raises nothing and returns no date: for every triple the result is
  Python's \<^verbatim>\<open>None\<close>.
\<close>

theorem eth_to_greg_returns_None:
  "eth_to_greg year month day = Inr None"
  by (simp add: eth_to_greg_def)

section \<open>The upper end of the supported range\<close>

text \<open>
  C10: \<^verbatim>\<open>_greg_to_jdn\<close> raises an error for every triple with a year after 9999, such as
  the valid Gregorian date 10000-01-01; the day number of 9999-12-31 is 5373484, and
  \<^verbatim>\<open>jdn_to_greg\<close> raises an error for every day number after it.
\<close>

theorem gregorian_year_upper_bound:
  "(9999 < year \<longrightarrow>
      greg_to_jdn year month day = Inl InvalidDateError \<or>
      greg_to_jdn year month day = Inl OverflowError) \<and>
   valid_gregorian 10000 1 1 \<and>
   greg_to_jdn 10000 1 1 = Inl InvalidDateError \<and>
   greg_to_jdn 9999 12 31 = Inr 5373484 \<and>
   (5373484 < jdn \<longrightarrow>
      jdn_to_greg jdn = Inl (ValueError Datetime_message) \<or>
      jdn_to_greg jdn = Inl OverflowError)"
proof (intro conjI impI)
  assume "9999 < year"
  then show "greg_to_jdn year month day = Inl InvalidDateError \<or>
      greg_to_jdn year month day = Inl OverflowError"
    by (simp add: greg_to_jdn_def date_new_def MAXYEAR_def InvalidDateError_def)
next
  show "valid_gregorian 10000 1 1"
    by (simp add: valid_gregorian_def gregorian_month_length_def)
next
  show "greg_to_jdn 10000 1 1 = Inl InvalidDateError"
    by (simp add: greg_to_jdn_def date_new_def c_int_def MINYEAR_def MAXYEAR_def
        InvalidDateError_def)
next
  show "greg_to_jdn 9999 12 31 = Inr 5373484"
    by (simp add: greg_to_jdn_def datetime_defs)
next
  assume "5373484 < jdn"
  then have "3652059 < jdn - 1721425" "\<not> jdn < 1721425"
    by linarith+
  with fromordinal_beyond_max [of "jdn - 1721425"]
  show "jdn_to_greg jdn = Inl (ValueError Datetime_message) \<or>
      jdn_to_greg jdn = Inl OverflowError"
    by (simp add: jdn_to_greg_def)
qed

theorem gregorian_year_upper_bound_witness:
  "(9999::int) < 10000 \<and> greg_to_jdn 10000 1 1 = Inl InvalidDateError \<and>
   (5373484::int) < 5373485 \<and> jdn_to_greg 5373485 = Inl (ValueError Datetime_message)"
proof -
  have "jdn_to_greg 5373485 \<noteq> Inl OverflowError"
    by (simp add: jdn_to_greg_def fromordinal_def ord2ymd_def DI_values Let_def drop_bit_eq_div
        datetime_defs)
  with gregorian_year_upper_bound [of 10000 1 1 5373485] show ?thesis
    by simp
qed

end
